theory Spec2Isabelle
  imports Main "HOL-Library.Word"
begin

section \<open>Text written to standard output\<close>

text \<open>
  Both programs are observed only through the characters they write to standard output.
  The output is a \<open>string\<close>; a line ends at a newline character and a token is a maximal
  run of characters other than the space.
\<close>

abbreviation newline :: char where
  "newline \<equiv> CHR 0x0A"

abbreviation space :: char where
  "space \<equiv> CHR '' ''"

text \<open>
  \<open>split_on c s\<close> cuts \<open>s\<close> at every occurrence of \<open>c\<close>; the result is never empty and
  its last element is the text after the last occurrence of \<open>c\<close>.
\<close>

fun split_on :: "char \<Rightarrow> string \<Rightarrow> string list" where
  "split_on c [] = [[]]"
| "split_on c (x # xs) =
     (if x = c then [] # split_on c xs
      else (case split_on c xs of
              [] \<Rightarrow> [[x]]
            | w # ws \<Rightarrow> (x # w) # ws))"

definition lines_of :: "string \<Rightarrow> string list" where
  \<comment> \<open>the complete (newline-terminated) lines of an output\<close>
  "lines_of s = butlast (split_on newline s)"

definition pending_line :: "string \<Rightarrow> string" where
  \<comment> \<open>what has been written after the last newline\<close>
  "pending_line s = last (split_on newline s)"

definition tokens :: "string \<Rightarrow> string list" where
  "tokens l = filter (\<lambda>w. w \<noteq> []) (split_on space l)"

section \<open>\<open>src/test/targets/print_longdouble.cpp\<close>\<close>

subsection \<open>Memory and the \<open>long double\<close> object\<close>

type_synonym byte = "8 word"
type_synonym addr = nat
type_synonym memory = "addr \<Rightarrow> byte"

text \<open>
  A floating literal of the source, kept as written: \<open>LdLit d p\<close> is the decimal
  \<open>d / 10 ^ p\<close>, so \<open>42.24l\<close> is \<open>LdLit 4224 2\<close> and \<open>64.125l\<close> is \<open>LdLit 64125 3\<close>.
\<close>

datatype ld_literal = LdLit nat nat

text \<open>
  How a \<open>long double\<close> is laid out is the compiler's and the ABI's business, not the
  program's. The program is therefore modelled over a parameter \<open>repr\<close>: the bytes that
  storing a literal's value writes, lowest address first. Bytes of the sixteen the
  program reads that the store does not write (padding) keep what memory held.
\<close>

type_synonym ld_repr = "ld_literal \<Rightarrow> byte list"

fun store_bytes :: "memory \<Rightarrow> addr \<Rightarrow> byte list \<Rightarrow> memory" where
  "store_bytes m a [] = m"
| "store_bytes m a (b # bs) = store_bytes (m(a := b)) (Suc a) bs"

definition load_bytes :: "memory \<Rightarrow> addr \<Rightarrow> nat \<Rightarrow> byte list" where
  "load_bytes m a n = map (\<lambda>k. m (a + k)) [0..<n]"

record state =
  mem :: memory
  stdout :: string

subsection \<open>\<open>printf\<close>\<close>

text \<open>
  \<open>printf("%#x ", unsafe[i])\<close>: the \<open>uint8_t\<close> is promoted to \<open>int\<close> and converted
  as an unsigned hexadecimal number in lower case without leading zeros; the \<open>#\<close> flag
  puts \<open>0x\<close> in front of a nonzero result and leaves a zero result as it is (C standard,
  7.21.6.1). The format ends with a space.
\<close>

definition hex_digit :: "nat \<Rightarrow> char" where
  "hex_digit d = ''0123456789abcdef'' ! (d mod 16)"

fun hex :: "nat \<Rightarrow> string" where
  "hex n = (if n < 16 then [hex_digit n] else hex (n div 16) @ [hex_digit (n mod 16)])"

declare hex.simps [simp del]

definition alt_hex :: "nat \<Rightarrow> string" where
  \<comment> \<open>the conversion \<open>%#x\<close>\<close>
  "alt_hex n = (if n = 0 then ''0'' else ''0x'' @ hex n)"

definition printf_hex_sp :: "byte \<Rightarrow> state \<Rightarrow> state" where
  \<comment> \<open>\<open>printf("%#x ", b)\<close>\<close>
  "printf_hex_sp b s = s\<lparr>stdout := stdout s @ alt_hex (unat b) @ [space]\<rparr>"

definition printf_nl :: "state \<Rightarrow> state" where
  \<comment> \<open>\<open>printf("\n")\<close>\<close>
  "printf_nl s = s\<lparr>stdout := stdout s @ [newline]\<rparr>"

subsection \<open>\<open>main\<close>\<close>

definition assign_ld :: "ld_repr \<Rightarrow> addr \<Rightarrow> ld_literal \<Rightarrow> state \<Rightarrow> state" where
  \<comment> \<open>\<open>i = v\<close> for the \<open>long double i\<close> at address \<open>a\<close>\<close>
  "assign_ld repr a v s = s\<lparr>mem := store_bytes (mem s) a (repr v)\<rparr>"

text \<open>
  \<open>for (int i = 0; i < 16; ++i) printf("%#x ", unsafe[i]);\<close> with the loop counter
  as an argument.
\<close>

function print_loop :: "addr \<Rightarrow> nat \<Rightarrow> state \<Rightarrow> state" where
  "print_loop unsafe i s =
     (if i < 16 then print_loop unsafe (Suc i) (printf_hex_sp (mem s (unsafe + i)) s)
      else s)"
  by pat_completeness auto
termination
  by (relation "measure (\<lambda>(unsafe, i, s). 16 - i)") auto

declare print_loop.simps [simp del]

text \<open>
  The statements of \<open>main\<close> in order, for the variable \<open>i\<close> at address \<open>i_addr\<close>. The
  pointer \<open>unsafe\<close> is \<open>reinterpret_cast<uint8_t*>(&i)\<close>, the address of \<open>i\<close> itself.
\<close>

definition main_body :: "ld_repr \<Rightarrow> addr \<Rightarrow> (state \<Rightarrow> state) list" where
  "main_body repr i_addr =
     (let unsafe = i_addr in
      [ assign_ld repr i_addr (LdLit 4224 2),
        print_loop unsafe 0,
        printf_nl,
        assign_ld repr i_addr (LdLit 64125 3),
        print_loop unsafe 0,
        printf_nl ])"

definition run_upto :: "nat \<Rightarrow> ld_repr \<Rightarrow> addr \<Rightarrow> state \<Rightarrow> state" where
  \<comment> \<open>the state after the first \<open>k\<close> statements of \<open>main\<close>\<close>
  "run_upto k repr i_addr s = fold (\<lambda>stmt. stmt) (take k (main_body repr i_addr)) s"

definition main :: "ld_repr \<Rightarrow> addr \<Rightarrow> memory \<Rightarrow> state" where
  \<comment> \<open>the whole program, started on memory \<open>m0\<close> with nothing written yet\<close>
  "main repr i_addr m0 = run_upto 6 repr i_addr \<lparr>mem = m0, stdout = []\<rparr>"

text \<open>The sixteen bytes at the address of \<open>i\<close>: what both loops read.\<close>

definition ld_object :: "addr \<Rightarrow> state \<Rightarrow> byte list" where
  "ld_object i_addr s = load_bytes (mem s) i_addr 16"

subsection \<open>The x86-64 System V layout\<close>

text \<open>
  On x86-64 Linux a \<open>long double\<close> is the 80-bit x87 extended format: a 64-bit
  significand with an explicit leading one, then fifteen bits of exponent biased by
  16383 and the sign bit, little endian, in a sixteen-byte object whose last six bytes
  are padding the store leaves alone. \<open>x87_extended\<close> converts a positive literal in the
  normal range, rounding to nearest, ties to even.
\<close>

fun ilog2 :: "nat \<Rightarrow> nat" where
  "ilog2 n = (if n < 2 then 0 else Suc (ilog2 (n div 2)))"

declare ilog2.simps [simp del]

definition le_bytes :: "nat \<Rightarrow> nat \<Rightarrow> byte list" where
  \<comment> \<open>the \<open>n\<close> low bytes of \<open>v\<close>, lowest first\<close>
  "le_bytes n v = map (\<lambda>k. of_nat (v div 256 ^ k mod 256)) [0..<n]"

definition round_div :: "nat \<Rightarrow> nat \<Rightarrow> nat" where
  \<comment> \<open>\<open>num / den\<close> rounded to nearest, ties to even\<close>
  "round_div num den =
     (let q = num div den; r = num mod den
      in if 2 * r > den \<or> (2 * r = den \<and> odd q) then q + 1 else q)"

definition binary_exponent :: "nat \<Rightarrow> nat \<Rightarrow> int" where
  \<comment> \<open>the \<open>e\<close> with \<open>2 ^ e \<le> d / den < 2 ^ (e + 1)\<close>, for positive \<open>d\<close> and \<open>den\<close>\<close>
  "binary_exponent d den =
     (let e0 = int (ilog2 d) - int (ilog2 den)
      in if den * 2 ^ nat e0 \<le> d * 2 ^ nat (- e0) then e0 else e0 - 1)"

definition x87_extended :: ld_repr where
  "x87_extended l =
     (case l of LdLit d p \<Rightarrow>
        if d = 0 then replicate 10 0
        else
          let e = binary_exponent d (10 ^ p);
              m = round_div (d * 2 ^ nat (63 - e)) (10 ^ p * 2 ^ nat (e - 63))
          in if m = 2 ^ 64 then le_bytes 8 (2 ^ 63) @ le_bytes 2 (nat (e + 1 + 16383))
             else le_bytes 8 m @ le_bytes 2 (nat (e + 16383)))"

subsection \<open>What the output is checked against\<close>

definition render :: "byte list \<Rightarrow> string" where
  \<comment> \<open>the bytes as one print loop writes them: each converted by \<open>%#x\<close> and followed by a space\<close>
  "render bs = concat (map (\<lambda>b. alt_hex (unat b) @ [space]) bs)"

definition is_hex_digit :: "char \<Rightarrow> bool" where
  "is_hex_digit c = (c \<in> set ''0123456789abcdef'')"

text \<open>
  A hexadecimal byte token: \<open>0\<close>, or \<open>0x\<close> and one or two lower-case hexadecimal digits
  of which the first is not \<open>0\<close>.
\<close>

definition is_hex_byte_token :: "string \<Rightarrow> bool" where
  "is_hex_byte_token t =
     (t = ''0'' \<or>
      (take 2 t = ''0x'' \<and> (length t = 3 \<or> length t = 4) \<and>
       list_all is_hex_digit (drop 2 t) \<and> t ! 2 \<noteq> CHR ''0''))"

text \<open>
  The number a token denotes when read as a C hexadecimal constant, with or without
  the prefix \<open>0x\<close>.
\<close>

fun index_of :: "'a \<Rightarrow> 'a list \<Rightarrow> nat" where
  "index_of c [] = 0"
| "index_of c (x # xs) = (if x = c then 0 else Suc (index_of c xs))"

definition hex_digit_value :: "char \<Rightarrow> nat" where
  "hex_digit_value c = index_of c ''0123456789abcdef''"

definition hex_value :: "string \<Rightarrow> nat" where
  "hex_value ds = foldl (\<lambda>v c. 16 * v + hex_digit_value c) 0 ds"

definition token_value :: "string \<Rightarrow> nat" where
  "token_value t = (if take 2 t = ''0x'' then hex_value (drop 2 t) else hex_value t)"

section \<open>\<open>src/debugger/test_targets/multi_threaded2.cpp\<close>\<close>

subsection \<open>Threads, events and the state of the process\<close>

text \<open>
  The program is one main thread and the threads it starts, scheduled independently.
  It is modelled as a transition system: a scheduler picks who runs next, and the one
  picked executes its next library call. Each call that can be observed is recorded in
  a trace.
\<close>

text \<open>The functions the program defines; \<open>main\<close> passes one of them to \<open>pthread_create\<close>.\<close>

datatype routine = Main_fn | Say_hi

text \<open>
  Where a thread stands in \<open>say_hi\<close>: before each of the three insertions into
  \<open>std::cout\<close> and before \<open>sleep(1)\<close>.
\<close>

datatype loc = AtThread | AtTid | AtReporting | AtSleep

text \<open>
  The thread behind a handle of the vector: none yet (the handle is value-initialised,
  or \<open>pthread_create\<close> failed), running with its kernel thread id, or terminated because
  its start routine returned.
\<close>

datatype thread = Unstarted | Running nat loc | Returned

text \<open>
  \<open>main\<close> is at the head of its first loop with the index of the next handle, at the
  head of its second loop with the index of the next handle, or has returned, which
  ends the process.
\<close>

datatype main_pc = Creating nat | Joining nat | Exited

datatype event =
    Create nat routine bool  \<comment> \<open>\<open>pthread_create(&threads[k], nullptr, r, nullptr)\<close> and whether it succeeded\<close>
  | Join nat bool            \<comment> \<open>\<open>pthread_join(threads[k], nullptr)\<close> returned, having joined a thread or with an error\<close>
  | Write nat string         \<comment> \<open>the thread of handle \<open>k\<close> inserted the text into \<open>std::cout\<close>\<close>
  | Sleep nat                \<comment> \<open>the thread of handle \<open>k\<close> returned from \<open>sleep(1)\<close>\<close>
  | Flushed                  \<comment> \<open>the buffer of the standard output stream was written out\<close>

record pstate =
  main_pc :: main_pc
  threads :: "thread list"
  trace :: "event list"

text \<open>
  What the scheduler and the environment decide at each step: \<open>Main r\<close> lets \<open>main\<close>
  run, and \<open>r\<close> is the answer of \<open>pthread_create\<close> should that be its next call, the
  new thread's kernel thread id or \<open>None\<close> for a failure; \<open>Thread k\<close> lets the
  thread of handle \<open>k\<close> run; \<open>Flush\<close> is the library writing out the buffer of the
  standard output stream. The program never flushes (it writes \<open>"\n"\<close>, not
  \<open>std::endl\<close>), so when that happens is the library's decision: at each newline on a
  terminal, when the buffer is full on a pipe or a file.
\<close>

datatype choice = Main "nat option" | Thread nat | Flush

definition thread_at :: "pstate \<Rightarrow> nat \<Rightarrow> thread" where
  "thread_at s k = (if k < length (threads s) then threads s ! k else Unstarted)"

subsection \<open>\<open>say_hi\<close>\<close>

definition digit :: "nat \<Rightarrow> char" where
  "digit d = ''0123456789'' ! (d mod 10)"

fun dec :: "nat \<Rightarrow> string" where
  \<comment> \<open>\<open>operator<<\<close> on the \<open>pid_t\<close> that \<open>gettid()\<close> returns: decimal digits\<close>
  "dec n = (if n < 10 then [digit n] else dec (n div 10) @ [digit (n mod 10)])"

declare dec.simps [simp del]

text \<open>
  One step of the body of \<open>while (true)\<close> for the thread of handle \<open>k\<close> with thread id
  \<open>tid\<close>: the next location and the event. The statement
  \<open>std::cout << "Thread " << gettid() << " reporting in\n"\<close> is three calls of
  \<open>operator<<\<close>, each one step; \<open>gettid()\<close> is the thread's own id. After \<open>sleep(1)\<close>
  control is back at the head of the loop; no location leaves it.
\<close>

fun say_hi_step :: "nat \<Rightarrow> nat \<Rightarrow> loc \<Rightarrow> loc \<times> event" where
  "say_hi_step k tid AtThread = (AtTid, Write k ''Thread '')"
| "say_hi_step k tid AtTid = (AtReporting, Write k (dec tid))"
| "say_hi_step k tid AtReporting = (AtSleep, Write k ('' reporting in'' @ [newline]))"
| "say_hi_step k tid AtSleep = (AtThread, Sleep k)"

text \<open>
  The routine on its own, as a function of the trace so far: one round of the loop
  appends its four events and the loop starts again. \<open>None\<close> is "does not return".
\<close>

definition round_events :: "nat \<Rightarrow> nat \<Rightarrow> event list" where
  "round_events k tid =
     [Write k ''Thread '', Write k (dec tid), Write k ('' reporting in'' @ [newline]), Sleep k]"

partial_function (option) say_hi :: "nat \<Rightarrow> nat \<Rightarrow> event list \<Rightarrow> event list option" where
  "say_hi k tid tr = say_hi k tid (tr @ round_events k tid)"

text \<open>
  The first \<open>n\<close> steps of the routine from its entry: the location reached and the
  events so far.
\<close>

fun say_hi_run :: "nat \<Rightarrow> nat \<Rightarrow> nat \<Rightarrow> loc \<times> event list" where
  "say_hi_run k tid 0 = (AtThread, [])"
| "say_hi_run k tid (Suc n) =
     (case say_hi_run k tid n of
        (l, es) \<Rightarrow> (case say_hi_step k tid l of (l', e) \<Rightarrow> (l', es @ [e])))"

subsection \<open>\<open>main\<close> and the scheduler\<close>

text \<open>
  \<open>std::vector<pthread_t> threads(10)\<close>; the first loop calls \<open>pthread_create\<close> for
  each element in order and ignores the result, the second calls \<open>pthread_join\<close> for
  each element in order and ignores the result. \<open>pthread_join\<close> blocks while the thread
  runs and returns once it has terminated. On a handle whose \<open>pthread_create\<close> failed
  no thread is there to wait for: the call returns at once with an error, and \<open>main\<close>
  goes on to the next handle. Leaving the second loop, \<open>main\<close> returns: the process
  exits, which flushes the standard output stream and ends every thread.
\<close>

definition initial :: pstate where
  "initial = \<lparr>main_pc = Creating 0, threads = replicate 10 Unstarted, trace = []\<rparr>"

fun step :: "choice \<Rightarrow> pstate \<Rightarrow> pstate" where
  "step (Main r) s =
     (case main_pc s of
        Creating k \<Rightarrow>
          if k < length (threads s) then
            s\<lparr>main_pc := Creating (Suc k),
              threads := (case r of
                            Some tid \<Rightarrow> (threads s)[k := Running tid AtThread]
                          | None \<Rightarrow> threads s),
              trace := trace s @ [Create k Say_hi (r \<noteq> None)]\<rparr>
          else s\<lparr>main_pc := Joining 0\<rparr>
      | Joining k \<Rightarrow>
          if k < length (threads s) then
            (case threads s ! k of
               Unstarted \<Rightarrow> s\<lparr>main_pc := Joining (Suc k), trace := trace s @ [Join k False]\<rparr>
             | Running tid l \<Rightarrow> s
             | Returned \<Rightarrow> s\<lparr>main_pc := Joining (Suc k), trace := trace s @ [Join k True]\<rparr>)
          else s\<lparr>main_pc := Exited, trace := trace s @ [Flushed]\<rparr>
      | Exited \<Rightarrow> s)"
| "step (Thread k) s =
     (if main_pc s = Exited then s
      else (case thread_at s k of
              Running tid l \<Rightarrow>
                (case say_hi_step k tid l of
                   (l', e) \<Rightarrow> s\<lparr>threads := (threads s)[k := Running tid l'],
                                 trace := trace s @ [e]\<rparr>)
            | Unstarted \<Rightarrow> s
            | Returned \<Rightarrow> s))"
| "step Flush s =
     (if main_pc s = Exited then s else s\<lparr>trace := trace s @ [Flushed]\<rparr>)"

definition exec :: "choice list \<Rightarrow> pstate" where
  \<comment> \<open>the state of the process after the scheduler's choices, from the start of \<open>main\<close>\<close>
  "exec sched = fold step sched initial"

declare step.simps [simp del]

fun answers :: "choice list \<Rightarrow> nat option list" where
  \<comment> \<open>what the environment answered at the steps of \<open>main\<close>, in order\<close>
  "answers [] = []"
| "answers (Main r # cs) = r # answers cs"
| "answers (c # cs) = answers cs"

subsection \<open>Reading a trace\<close>

fun creates :: "event list \<Rightarrow> (nat \<times> routine \<times> bool) list" where
  "creates [] = []"
| "creates (Create k r ok # es) = (k, r, ok) # creates es"
| "creates (e # es) = creates es"

fun joins :: "event list \<Rightarrow> (nat \<times> bool) list" where
  "joins [] = []"
| "joins (Join k ok # es) = (k, ok) # joins es"
| "joins (e # es) = joins es"

fun actor :: "event \<Rightarrow> nat option" where
  \<comment> \<open>the handle of the thread an event belongs to; \<open>None\<close> for the calls of \<open>main\<close>\<close>
  "actor (Write k t) = Some k"
| "actor (Sleep k) = Some k"
| "actor e = None"

definition events_of :: "nat \<Rightarrow> event list \<Rightarrow> event list" where
  "events_of k tr = filter (\<lambda>e. actor e = Some k) tr"

fun written :: "event list \<Rightarrow> string" where
  \<comment> \<open>the characters inserted into \<open>std::cout\<close>, in the order of the insertions\<close>
  "written [] = []"
| "written (Write k t # es) = t @ written es"
| "written (e # es) = written es"



definition written_by :: "nat \<Rightarrow> event list \<Rightarrow> string" where
  \<comment> \<open>the characters one thread has inserted\<close>
  "written_by k tr = written (events_of k tr)"

definition report_line :: "nat \<Rightarrow> string" where
  "report_line tid = ''Thread '' @ dec tid @ '' reporting in''"

definition is_digit :: "char \<Rightarrow> bool" where
  "is_digit c = (c \<in> set ''0123456789'')"

text \<open>A line of the form \<open>Thread <id> reporting in\<close> for some decimal \<open><id>\<close>.\<close>

definition is_report_line :: "string \<Rightarrow> bool" where
  "is_report_line l =
     (20 < length l \<and> take 7 l = ''Thread '' \<and>
      drop (length l - 13) l = '' reporting in'' \<and>
      list_all is_digit (take (length l - 20) (drop 7 l)))"

definition shape :: "string \<Rightarrow> nat list" where
  \<comment> \<open>the number of tokens of each complete line\<close>
  "shape out = map (\<lambda>l. length (tokens l)) (lines_of out)"

subsection \<open>Invariants of the executions\<close>

text \<open>
  \<open>main_inv ans s\<close> holds of the state \<open>s\<close> reached when the steps of \<open>main\<close> have
  been answered by \<open>ans\<close>, and \<open>thread_inv s k\<close> says that the events of the thread of
  handle \<open>k\<close> are exactly the steps of \<open>say_hi\<close> it has taken.
\<close>

definition answer_at :: "nat option list \<Rightarrow> nat \<Rightarrow> nat option" where
  \<comment> \<open>the answer to \<open>pthread_create\<close> on handle \<open>k\<close>; \<open>None\<close> also while it has not been called\<close>
  "answer_at ans k = (if k < length ans \<and> k < 10 then ans ! k else None)"

fun handle_ok :: "nat option \<Rightarrow> thread \<Rightarrow> bool" where
  "handle_ok None t = (t = Unstarted)"
| "handle_ok (Some tid) t = (\<exists>l. t = Running tid l)"

definition create_calls :: "nat option list \<Rightarrow> nat \<Rightarrow> (nat \<times> routine \<times> bool) list" where
  "create_calls ans c = map (\<lambda>k. (k, Say_hi, ans ! k \<noteq> None)) [0..<c]"

definition failed_joins :: "nat \<Rightarrow> (nat \<times> bool) list" where
  "failed_joins j = map (\<lambda>k. (k, False)) [0..<j]"

definition main_inv :: "nat option list \<Rightarrow> pstate \<Rightarrow> bool" where
  "main_inv ans s =
     (length (threads s) = 10 \<and> (\<forall>k. thread_at s k \<noteq> Returned) \<and>
      (\<forall>k. handle_ok (answer_at ans k) (thread_at s k)) \<and>
      creates (trace s) = create_calls ans (min (length ans) 10) \<and>
      (case main_pc s of
         Creating j \<Rightarrow> j = length ans \<and> j \<le> 10 \<and> joins (trace s) = []
       | Joining j \<Rightarrow> 10 < length ans \<and> j \<le> 10 \<and> (\<forall>k<j. thread_at s k = Unstarted) \<and>
           joins (trace s) = failed_joins j
       | Exited \<Rightarrow> 10 < length ans \<and> (\<forall>k. thread_at s k = Unstarted) \<and>
           joins (trace s) = failed_joins 10))"

definition thread_inv :: "pstate \<Rightarrow> nat \<Rightarrow> bool" where
  "thread_inv s k =
     (case thread_at s k of
        Unstarted \<Rightarrow> events_of k (trace s) = []
      | Running tid l \<Rightarrow>
          say_hi_run k tid (length (events_of k (trace s))) = (l, events_of k (trace s))
      | Returned \<Rightarrow> False)"

section \<open>Properties of \<open>print_longdouble.cpp\<close>\<close>

subsection \<open>Lines and tokens\<close>

lemma split_on_notin: "c \<notin> set xs \<Longrightarrow> split_on c xs = [xs]"
  by (induction xs) auto

lemma split_on_sep: "c \<notin> set xs \<Longrightarrow> split_on c (xs @ c # ys) = xs # split_on c ys"
  by (induction xs) auto

lemma split_on_terminated:
  "\<forall>t \<in> set ts. c \<notin> set t \<Longrightarrow> split_on c (concat (map (\<lambda>t. t @ [c]) ts)) = ts @ [[]]"
  by (induction ts) (auto simp: split_on_sep)

lemma tokens_terminated:
  assumes "\<forall>t \<in> set ts. space \<notin> set t \<and> t \<noteq> []"
  shows "tokens (concat (map (\<lambda>t. t @ [space]) ts)) = ts"
proof -
  have "split_on space (concat (map (\<lambda>t. t @ [space]) ts)) = ts @ [[]]"
    using assms by (intro split_on_terminated) auto
  moreover have "filter (\<lambda>w. w \<noteq> []) ts = ts"
    using assms by (induction ts) auto
  ultimately show ?thesis by (simp add: tokens_def)
qed

subsection \<open>The conversion \<open>%#x\<close>\<close>

lemma hex_digit_in: "hex_digit d \<in> set ''0123456789abcdef''"
  unfolding hex_digit_def by (rule nth_mem) simp

lemma hex_chars: "set (hex n) \<subseteq> set ''0123456789abcdef''"
proof (induction n rule: hex.induct)
  case (1 n)
  show ?case
  proof (cases "n < 16")
    case True
    then show ?thesis using hex_digit_in [of n] by (subst hex.simps) simp
  next
    case False
    then show ?thesis using 1 hex_digit_in [of "n mod 16"] by (subst hex.simps) simp
  qed
qed

lemma hex_nonempty: "hex n \<noteq> []"
  by (subst hex.simps) simp

lemma alt_hex_nonempty: "alt_hex n \<noteq> []"
  by (simp add: alt_hex_def)

lemma hex_no_space: "space \<notin> set (hex n)"
proof
  assume "space \<in> set (hex n)"
  then have "space \<in> set ''0123456789abcdef''"
    using hex_chars by (rule rev_subsetD)
  then show False by simp
qed

lemma hex_no_newline: "newline \<notin> set (hex n)"
proof
  assume "newline \<in> set (hex n)"
  then have "newline \<in> set ''0123456789abcdef''"
    using hex_chars by (rule rev_subsetD)
  then show False by simp
qed

lemma alt_hex_no_space: "space \<notin> set (alt_hex n)"
  by (simp add: alt_hex_def hex_no_space)

lemma alt_hex_no_newline: "newline \<notin> set (alt_hex n)"
  by (simp add: alt_hex_def hex_no_newline)

lemma hex_digits_nonzero: "list_all (\<lambda>d. hex_digit d \<noteq> CHR ''0'') [1..<16]"
  by (simp add: upt_rec hex_digit_def)

lemma hex_digit_nonzero: "0 < d \<Longrightarrow> d < 16 \<Longrightarrow> hex_digit d \<noteq> CHR ''0''"
  using hex_digits_nonzero by (simp add: list_all_iff)

lemma hex_byte: "n < 256 \<Longrightarrow> hex n = (if n < 16 then [hex_digit n] else [hex_digit (n div 16), hex_digit (n mod 16)])"
  by (subst hex.simps, subst hex.simps) auto

lemma is_hex_digit_hex_digit: "is_hex_digit (hex_digit d)"
  using hex_digit_in [of d] by (simp only: is_hex_digit_def)

lemma alt_hex_byte_token:
  assumes "n < 256"
  shows "is_hex_byte_token (alt_hex n)"
proof (cases "n = 0")
  case True
  then show ?thesis by (simp add: is_hex_byte_token_def alt_hex_def)
next
  case False
  show ?thesis
  proof (cases "n < 16")
    case True
    with False have "hex_digit n \<noteq> CHR ''0''" by (simp add: hex_digit_nonzero)
    with True False assms show ?thesis
      by (simp add: is_hex_byte_token_def alt_hex_def hex_byte is_hex_digit_hex_digit)
  next
    case False
    with assms have "0 < n div 16" "n div 16 < 16" by auto
    then have "hex_digit (n div 16) \<noteq> CHR ''0''" by (rule hex_digit_nonzero)
    with False assms show ?thesis
      by (simp add: is_hex_byte_token_def alt_hex_def hex_byte is_hex_digit_hex_digit)
  qed
qed

subsection \<open>Memory, the print loop and \<open>main\<close> of \<open>print_longdouble.cpp\<close>\<close>

lemma store_bytes_apply:
  "store_bytes m a bs x = (if a \<le> x \<and> x < a + length bs then bs ! (x - a) else m x)"
proof (induction bs arbitrary: m a)
  case Nil
  show ?case by auto
next
  case (Cons b bs)
  show ?case by (auto simp: Cons.IH nth_Cons' Suc_diff_le)
qed

lemma mem_printf_hex_sp [simp]: "mem (printf_hex_sp b s) = mem s"
  by (simp add: printf_hex_sp_def)

lemma stdout_printf_hex_sp [simp]:
  "stdout (printf_hex_sp b s) = stdout s @ alt_hex (unat b) @ [space]"
  by (simp add: printf_hex_sp_def)

lemma print_loop_mem: "mem (print_loop u i s) = mem s"
proof (induction u i s rule: print_loop.induct)
  case (1 u i s)
  show ?case
    by (subst print_loop.simps) (simp add: 1)
qed

lemma print_loop_stdout:
  "stdout (print_loop u i s) = stdout s @ render (map (\<lambda>k. mem s (u + k)) [i..<16])"
proof (induction u i s rule: print_loop.induct)
  case (1 u i s)
  show ?case
  proof (cases "i < 16")
    case True
    then show ?thesis
      by (subst print_loop.simps) (simp add: 1 upt_conv_Cons render_def)
  next
    case False
    then show ?thesis by (subst print_loop.simps) (simp add: render_def)
  qed
qed



lemma split_on_rest:
  "\<forall>t \<in> set ts. c \<notin> set t \<Longrightarrow> c \<notin> set r \<Longrightarrow>
   split_on c (concat (map (\<lambda>t. t @ [c]) ts) @ r) = ts @ [r]"
  by (induction ts) (auto simp: split_on_sep split_on_notin)

lemma render_no_newline: "newline \<notin> set (render bs)"
  by (induction bs) (simp_all add: render_def alt_hex_no_newline)

lemma render_tokens: "render bs = concat (map (\<lambda>t. t @ [space]) (map (\<lambda>b. alt_hex (unat b)) bs))"
  by (simp add: render_def o_def)

lemma tokens_render: "tokens (render bs) = map (\<lambda>b. alt_hex (unat b)) bs"
  unfolding render_tokens
  by (rule tokens_terminated) (auto simp: alt_hex_no_space alt_hex_nonempty)

lemma length_ld_object: "length (ld_object a s) = 16"
  by (simp add: ld_object_def load_bytes_def)

lemma load_store_bytes:
  "load_bytes (store_bytes m a bs) a n =
     take n bs @ load_bytes m (a + length bs) (n - length bs)"
  by (rule nth_equalityI) (auto simp: load_bytes_def store_bytes_apply nth_append)

lemma run_upto_simps:
  "run_upto 0 repr a s = s"
  "run_upto 1 repr a s = assign_ld repr a (LdLit 4224 2) s"
  "run_upto (Suc 0) repr a s = assign_ld repr a (LdLit 4224 2) s"
  "run_upto 2 repr a s = print_loop a 0 (run_upto 1 repr a s)"
  "run_upto 3 repr a s = printf_nl (run_upto 2 repr a s)"
  "run_upto 4 repr a s = assign_ld repr a (LdLit 64125 3) (run_upto 3 repr a s)"
  "run_upto 5 repr a s = print_loop a 0 (run_upto 4 repr a s)"
  "run_upto 6 repr a s = printf_nl (run_upto 5 repr a s)"
  by (simp_all add: run_upto_def main_body_def)

lemma main_stdout:
  "stdout (main repr a m0) =
     render (ld_object a (run_upto 1 repr a \<lparr>mem = m0, stdout = []\<rparr>)) @ [newline] @
     render (ld_object a (run_upto 4 repr a \<lparr>mem = m0, stdout = []\<rparr>)) @ [newline]"
  by (simp add: main_def run_upto_simps print_loop_stdout print_loop_mem
      printf_nl_def assign_ld_def ld_object_def load_bytes_def)

lemma main_lines:
  "split_on newline (stdout (main repr a m0)) =
     [render (ld_object a (run_upto 1 repr a \<lparr>mem = m0, stdout = []\<rparr>)),
      render (ld_object a (run_upto 4 repr a \<lparr>mem = m0, stdout = []\<rparr>)), []]"
  by (simp add: main_stdout split_on_sep render_no_newline)

lemma run_upto_mem:
  "mem (run_upto 1 repr a s) = store_bytes (mem s) a (repr (LdLit 4224 2))"
  "mem (run_upto (Suc 0) repr a s) = store_bytes (mem s) a (repr (LdLit 4224 2))"
  "mem (run_upto 2 repr a s) = mem (run_upto 1 repr a s)"
  "mem (run_upto 3 repr a s) = mem (run_upto 1 repr a s)"
  "mem (run_upto 4 repr a s) = store_bytes (mem (run_upto 3 repr a s)) a (repr (LdLit 64125 3))"
  "mem (run_upto 5 repr a s) = mem (run_upto 4 repr a s)"
  "mem (run_upto 6 repr a s) = mem (run_upto 4 repr a s)"
  by (simp_all add: run_upto_simps print_loop_mem printf_nl_def assign_ld_def)

subsection \<open>The two constants on x86-64\<close>

lemma ilog2_values: "ilog2 4224 = 12" "ilog2 100 = 6" "ilog2 64125 = 15" "ilog2 1000 = 9"
  by (simp_all add: ilog2.simps)

lemma x87_4224: "x87_extended (LdLit 4224 2) = [195, 245, 40, 92, 143, 194, 245, 168, 4, 64]"
proof -
  have e: "binary_exponent 4224 (10 ^ 2) = 5"
    by (simp add: binary_exponent_def Let_def ilog2_values)
  have m: "round_div (4224 * 2 ^ nat (63 - 5)) (10 ^ 2 * 2 ^ nat (5 - 63)) = 0xA8F5C28F5C28F5C3"
    by (simp add: round_div_def Let_def)
  have b: "le_bytes 8 0xA8F5C28F5C28F5C3 = [195, 245, 40, 92, 143, 194, 245, 168]"
    "le_bytes 2 (nat (5 + 16383)) = [4, 64]"
    by (simp_all add: le_bytes_def upt_rec)
  show ?thesis
    unfolding x87_extended_def ld_literal.case Let_def e m b by simp
qed

lemma x87_64125: "x87_extended (LdLit 64125 3) = [0, 0, 0, 0, 0, 0, 64, 128, 5, 64]"
proof -
  have e: "binary_exponent 64125 (10 ^ 3) = 6"
    by (simp add: binary_exponent_def Let_def ilog2_values)
  have m: "round_div (64125 * 2 ^ nat (63 - 6)) (10 ^ 3 * 2 ^ nat (6 - 63)) = 0x8040000000000000"
    by (simp add: round_div_def Let_def)
  have b: "le_bytes 8 0x8040000000000000 = [0, 0, 0, 0, 0, 0, 64, 128]"
    "le_bytes 2 (nat (6 + 16383)) = [5, 64]"
    by (simp_all add: le_bytes_def upt_rec)
  show ?thesis
    unfolding x87_extended_def ld_literal.case Let_def e m b by simp
qed

lemma alt_hex_4224:
  "map (\<lambda>b. alt_hex (unat b)) [195, 245, 40, 92, 143, 194, 245, 168, 4, 64 :: byte] =
     [''0xc3'', ''0xf5'', ''0x28'', ''0x5c'', ''0x8f'', ''0xc2'', ''0xf5'', ''0xa8'', ''0x4'', ''0x40'']"
  by (simp add: alt_hex_def hex.simps hex_digit_def)

lemma alt_hex_64125:
  "map (\<lambda>b. alt_hex (unat b)) [0, 0, 0, 0, 0, 0, 64, 128, 5, 64 :: byte] =
     [''0'', ''0'', ''0'', ''0'', ''0'', ''0'', ''0x40'', ''0x80'', ''0x5'', ''0x40'']"
  by (simp add: alt_hex_def hex.simps hex_digit_def)

subsection \<open>What \<open>print_longdouble.cpp\<close> prints\<close>

lemma hex_digit_values: "list_all (\<lambda>d. hex_digit_value (hex_digit d) = d) [0..<16]"
  by (simp add: upt_rec hex_digit_def hex_digit_value_def)

lemma hex_digit_value_hex_digit: "d < 16 \<Longrightarrow> hex_digit_value (hex_digit d) = d"
  using hex_digit_values by (simp add: list_all_iff)

lemma hex_value_hex: "n < 256 \<Longrightarrow> hex_value (hex n) = n"
  by (simp add: hex_byte hex_value_def hex_digit_value_hex_digit)

lemma token_value_alt_hex: "n < 256 \<Longrightarrow> token_value (alt_hex n) = n"
  by (simp add: token_value_def alt_hex_def hex_value_hex)
    (simp add: hex_value_def hex_digit_value_def)

lemma token_values_render: "map token_value (tokens (render bs)) = map unat bs"
proof -
  have "unat b < 256" for b :: byte
    using unsigned_less [of b] by simp
  then show ?thesis
    by (simp add: tokens_render token_value_alt_hex)
qed

text \<open>
  Claim C1. Whatever the layout of \<open>long double\<close>, the address of the variable and the
  memory the program starts on, the program writes exactly two complete lines and
  nothing after them; each line has exactly 16 tokens, every token is a hexadecimal
  byte token, and the line is its tokens each followed by one space. Read as
  hexadecimal numbers, the tokens of the first line are the sixteen bytes at the
  address of the variable once \<open>42.24l\<close> has been stored there, those of the second
  line the sixteen bytes there once \<open>64.125l\<close> has been stored over them: in both
  cases the representation of the constant, followed by what memory held before where
  the representation is shorter than sixteen bytes.
\<close>

theorem print_longdouble_two_lines_of_16_tokens:
  "(let out = stdout (main repr i_addr m0);
        v1 = repr (LdLit 4224 2); v2 = repr (LdLit 64125 3);
        m1 = store_bytes m0 i_addr v1; m2 = store_bytes m1 i_addr v2
    in length (lines_of out) = 2 \<and> pending_line out = [] \<and>
       list_all (\<lambda>l. length (tokens l) = 16 \<and> list_all is_hex_byte_token (tokens l) \<and>
                      concat (map (\<lambda>t. t @ [space]) (tokens l)) = l)
         (lines_of out) \<and>
       map (\<lambda>l. map token_value (tokens l)) (lines_of out) =
         [map unat (load_bytes m1 i_addr 16), map unat (load_bytes m2 i_addr 16)] \<and>
       load_bytes m1 i_addr 16 =
         take 16 v1 @ load_bytes m0 (i_addr + length v1) (16 - length v1) \<and>
       load_bytes m2 i_addr 16 =
         take 16 v2 @ load_bytes m1 (i_addr + length v2) (16 - length v2))"
proof -
  have tok: "list_all is_hex_byte_token (map (\<lambda>b. alt_hex (unat b)) bs)" for bs :: "byte list"
  proof -
    have "unat b < 256" for b :: byte
      using unsigned_less [of b] by simp
    then show ?thesis by (simp add: list_all_iff alt_hex_byte_token)
  qed
  have line: "length (tokens (render (ld_object i_addr s))) = 16 \<and>
      list_all is_hex_byte_token (tokens (render (ld_object i_addr s))) \<and>
      concat (map (\<lambda>t. t @ [space]) (tokens (render (ld_object i_addr s)))) =
        render (ld_object i_addr s)" for s
    unfolding tokens_render
    by (intro conjI) (simp_all add: length_ld_object tok render_tokens)
  let ?out = "stdout (main repr i_addr m0)"
  let ?r1 = "render (ld_object i_addr (run_upto 1 repr i_addr \<lparr>mem = m0, stdout = []\<rparr>))"
  let ?r2 = "render (ld_object i_addr (run_upto 4 repr i_addr \<lparr>mem = m0, stdout = []\<rparr>))"
  have lines: "lines_of ?out = [?r1, ?r2]" and pending: "pending_line ?out = []"
    by (simp_all add: lines_of_def pending_line_def main_lines)
  have shape: "length (lines_of ?out) = 2 \<and> pending_line ?out = [] \<and>
      list_all (\<lambda>l. length (tokens l) = 16 \<and> list_all is_hex_byte_token (tokens l) \<and>
                     concat (map (\<lambda>t. t @ [space]) (tokens l)) = l)
        (lines_of ?out)"
    unfolding lines pending by (simp add: line)
  have bytes: "map (\<lambda>l. map token_value (tokens l)) (lines_of ?out) =
      [map unat (load_bytes (store_bytes m0 i_addr (repr (LdLit 4224 2))) i_addr 16),
       map unat (load_bytes (store_bytes (store_bytes m0 i_addr (repr (LdLit 4224 2)))
                   i_addr (repr (LdLit 64125 3))) i_addr 16)]"
    unfolding lines by (simp add: token_values_render ld_object_def run_upto_mem)
  from shape bytes show ?thesis
    unfolding Let_def by (simp only: load_store_bytes simp_thms)
qed


text \<open>
  The ten bytes a store writes on x86-64, read back through the byte pointer.
\<close>

lemma x86_64_object_4224:
  "take 10 (load_bytes (store_bytes m a (x87_extended (LdLit 4224 2))) a 16) =
     [195, 245, 40, 92, 143, 194, 245, 168, 4, 64]"
  by (subst load_store_bytes) (simp add: x87_4224)

lemma x86_64_object_64125:
  "take 10 (load_bytes (store_bytes m a (x87_extended (LdLit 64125 3))) a 16) =
     [0, 0, 0, 0, 0, 0, 64, 128, 5, 64]"
  by (subst load_store_bytes) (simp add: x87_64125)

text \<open>
  Claim C10. Whatever the layout, each token of each line belongs to one of the
  sixteen bytes read: a zero byte is printed as the token \<open>0\<close> without prefix, every
  other byte as \<open>0x\<close> followed by its hexadecimal digits. On x86-64 the second line
  begins with six tokens \<open>0\<close>, so not every token of the output carries the prefix.
\<close>

theorem zero_byte_has_no_prefix:
  "(let out = stdout (main repr i_addr m0);
        s0 = \<lparr>mem = m0, stdout = []\<rparr>;
        conv = (\<lambda>b t. if b = 0 then t = ''0''
                      else t = ''0x'' @ hex (unat b) \<and> list_all is_hex_digit (hex (unat b)))
    in list_all2 conv (ld_object i_addr (run_upto 1 repr i_addr s0)) (tokens (lines_of out ! 0)) \<and>
       list_all2 conv (ld_object i_addr (run_upto 4 repr i_addr s0)) (tokens (lines_of out ! 1))) \<and>
   take 10 (tokens (lines_of (stdout (main x87_extended i_addr m0)) ! 0)) =
     [''0xc3'', ''0xf5'', ''0x28'', ''0x5c'', ''0x8f'', ''0xc2'', ''0xf5'', ''0xa8'', ''0x4'', ''0x40''] \<and>
   take 10 (tokens (lines_of (stdout (main x87_extended i_addr m0)) ! 1)) =
     [''0'', ''0'', ''0'', ''0'', ''0'', ''0'', ''0x40'', ''0x80'', ''0x5'', ''0x40'']"
proof -
  have digits: "list_all is_hex_digit (hex n)" for n
    using hex_chars [of n] unfolding list_all_iff is_hex_digit_def by blast
  have conv: "list_all2
      (\<lambda>b t. if b = 0 then t = ''0''
             else t = ''0x'' @ hex (unat b) \<and> list_all is_hex_digit (hex (unat b)))
      bs (map (\<lambda>b. alt_hex (unat b)) bs)" for bs :: "byte list"
    by (simp add: list_all2_map2 list_all2_same alt_hex_def digits unat_eq_0)
  have general: "(let out = stdout (main repr i_addr m0);
        s0 = \<lparr>mem = m0, stdout = []\<rparr>;
        conv = (\<lambda>b t. if b = 0 then t = ''0''
                      else t = ''0x'' @ hex (unat b) \<and> list_all is_hex_digit (hex (unat b)))
    in list_all2 conv (ld_object i_addr (run_upto 1 repr i_addr s0)) (tokens (lines_of out ! 0)) \<and>
       list_all2 conv (ld_object i_addr (run_upto 4 repr i_addr s0)) (tokens (lines_of out ! 1)))"
    unfolding Let_def lines_of_def main_lines
    by (simp add: tokens_render conv)
  have l0: "take 10 (tokens (lines_of (stdout (main x87_extended i_addr m0)) ! 0)) =
        [''0xc3'', ''0xf5'', ''0x28'', ''0x5c'', ''0x8f'', ''0xc2'', ''0xf5'', ''0xa8'', ''0x4'', ''0x40'']"
    by (simp add: lines_of_def main_lines tokens_render ld_object_def run_upto_mem
        take_map x86_64_object_4224 alt_hex_4224 [simplified])
  have l1: "take 10 (tokens (lines_of (stdout (main x87_extended i_addr m0)) ! 1)) =
        [''0'', ''0'', ''0'', ''0'', ''0'', ''0'', ''0x40'', ''0x80'', ''0x5'', ''0x40'']"
    by (simp add: lines_of_def main_lines tokens_render ld_object_def run_upto_mem
        take_map x86_64_object_64125 alt_hex_64125 [simplified])
  from general l0 l1 show ?thesis by blast
qed

text \<open>
  Claim C6 says that nothing changes the variable after its initialisation. On x86-64
  the sixteen bytes of the variable after the fourth statement of \<open>main\<close>, the
  assignment \<open>i = 64.125l\<close>, differ from those after the first, the initialisation.
\<close>

theorem long_double_reassigned_counterexample:
  "ld_object 4096 (run_upto 4 x87_extended 4096 \<lparr>mem = \<lambda>a. 0, stdout = []\<rparr>) \<noteq>
   ld_object 4096 (run_upto 1 x87_extended 4096 \<lparr>mem = \<lambda>a. 0, stdout = []\<rparr>)"
proof
  assume "ld_object 4096 (run_upto 4 x87_extended 4096 \<lparr>mem = \<lambda>a. 0, stdout = []\<rparr>) =
    ld_object 4096 (run_upto 1 x87_extended 4096 \<lparr>mem = \<lambda>a. 0, stdout = []\<rparr>)"
  then have "take 10 (ld_object 4096 (run_upto 4 x87_extended 4096 \<lparr>mem = \<lambda>a. 0, stdout = []\<rparr>)) =
    take 10 (ld_object 4096 (run_upto 1 x87_extended 4096 \<lparr>mem = \<lambda>a. 0, stdout = []\<rparr>))"
    by (rule arg_cong)
  then show False
    by (simp add: ld_object_def run_upto_mem x86_64_object_4224 x86_64_object_64125)
qed

text \<open>
  Claim C6, amended. Memory is written by the initialisation with \<open>42.24l\<close> and by the
  assignment of \<open>64.125l\<close> and by nothing else: neither print loop and neither
  \<open>printf("\n")\<close> changes it.
\<close>

theorem long_double_written_twice_only:
  "mem (run_upto 0 repr i_addr s) = mem s \<and>
   mem (run_upto 1 repr i_addr s) = store_bytes (mem s) i_addr (repr (LdLit 4224 2)) \<and>
   mem (run_upto 2 repr i_addr s) = mem (run_upto 1 repr i_addr s) \<and>
   mem (run_upto 3 repr i_addr s) = mem (run_upto 2 repr i_addr s) \<and>
   mem (run_upto 4 repr i_addr s) =
     store_bytes (mem (run_upto 3 repr i_addr s)) i_addr (repr (LdLit 64125 3)) \<and>
   mem (run_upto 5 repr i_addr s) = mem (run_upto 4 repr i_addr s) \<and>
   mem (run_upto 6 repr i_addr s) = mem (run_upto 5 repr i_addr s)"
  by (simp add: run_upto_simps print_loop_mem printf_nl_def assign_ld_def)

section \<open>Properties of \<open>multi_threaded2.cpp\<close>\<close>

subsection \<open>Steps and traces\<close>

lemma exec_Nil: "exec [] = initial"
  by (simp add: exec_def)

lemma exec_snoc: "exec (sched @ [c]) = step c (exec sched)"
  by (simp add: exec_def)

lemma answers_append: "answers (xs @ ys) = answers xs @ answers ys"
  by (induction xs rule: answers.induct) simp_all

lemma creates_append: "creates (xs @ ys) = creates xs @ creates ys"
  by (induction xs rule: creates.induct) simp_all

lemma joins_append: "joins (xs @ ys) = joins xs @ joins ys"
  by (induction xs rule: joins.induct) simp_all

lemma written_append: "written (xs @ ys) = written xs @ written ys"
  by (induction xs rule: written.induct) simp_all

lemma events_of_append: "events_of k (xs @ ys) = events_of k xs @ events_of k ys"
  by (simp add: events_of_def)

lemma actor_say_hi_step: "actor (snd (say_hi_step k tid l)) = Some k"
  by (cases l) simp_all

lemma say_hi_step_event:
  assumes "say_hi_step k tid l = (l', e)"
  shows "creates [e] = []" and "joins [e] = []" and "actor e = Some k"
  using assms by (cases l; auto)+

lemma thread_at_update [simp]:
  "thread_at (s\<lparr>threads := (threads s')[k := t]\<rparr>) j =
     (if j = k \<and> k < length (threads s') then t else thread_at s' j)"
  by (auto simp: thread_at_def)

lemma thread_at_main_pc [simp]: "thread_at (s\<lparr>main_pc := p\<rparr>) j = thread_at s j"
  by (simp add: thread_at_def)

lemma thread_at_trace [simp]: "thread_at (s\<lparr>trace := tr\<rparr>) j = thread_at s j"
  by (simp add: thread_at_def)

text \<open>What a step of a thread, and a flush, leave alone.\<close>

lemma step_Thread_Running:
  assumes "thread_at s k = Running tid l" and "main_pc s \<noteq> Exited"
    and "say_hi_step k tid l = (l', e)"
  shows "step (Thread k) s = s\<lparr>threads := (threads s)[k := Running tid l'], trace := trace s @ [e]\<rparr>"
  using assms by (simp add: step.simps)

lemma step_Thread_idle:
  assumes "main_pc s = Exited \<or> thread_at s k = Unstarted \<or> thread_at s k = Returned"
  shows "step (Thread k) s = s"
  using assms by (auto simp: step.simps)

lemma step_Thread_frame:
  shows "main_pc (step (Thread k) s) = main_pc s"
    and "length (threads (step (Thread k) s)) = length (threads s)"
    and "creates (trace (step (Thread k) s)) = creates (trace s)"
    and "joins (trace (step (Thread k) s)) = joins (trace s)"
    and "handle_ok a (thread_at (step (Thread k) s) j) = handle_ok a (thread_at s j)"
    and "(thread_at (step (Thread k) s) j = Unstarted) = (thread_at s j = Unstarted)"
    and "(thread_at (step (Thread k) s) j = Returned) = (thread_at s j = Returned)"
proof -
  consider (idle) "main_pc s = Exited \<or> thread_at s k = Unstarted \<or> thread_at s k = Returned"
    | (run) tid l where "thread_at s k = Running tid l" "main_pc s \<noteq> Exited"
    by (cases "thread_at s k") auto
  then have "main_pc (step (Thread k) s) = main_pc s
    \<and> length (threads (step (Thread k) s)) = length (threads s)
    \<and> creates (trace (step (Thread k) s)) = creates (trace s)
    \<and> joins (trace (step (Thread k) s)) = joins (trace s)
    \<and> handle_ok a (thread_at (step (Thread k) s) j) = handle_ok a (thread_at s j)
    \<and> (thread_at (step (Thread k) s) j = Unstarted) = (thread_at s j = Unstarted)
    \<and> (thread_at (step (Thread k) s) j = Returned) = (thread_at s j = Returned)"
  proof cases
    case idle
    then show ?thesis by (simp add: step_Thread_idle)
  next
    case run
    obtain l' e where st: "say_hi_step k tid l = (l', e)"
      by (cases "say_hi_step k tid l")
    from run(1) have k: "k < length (threads s)"
      by (auto simp: thread_at_def split: if_splits)
    show ?thesis
      unfolding step_Thread_Running [OF run st]
      using run(1) k say_hi_step_event(1,2) [OF st]
      by (cases a) (auto simp: creates_append joins_append)
  qed
  then show "main_pc (step (Thread k) s) = main_pc s"
    and "length (threads (step (Thread k) s)) = length (threads s)"
    and "creates (trace (step (Thread k) s)) = creates (trace s)"
    and "joins (trace (step (Thread k) s)) = joins (trace s)"
    and "handle_ok a (thread_at (step (Thread k) s) j) = handle_ok a (thread_at s j)"
    and "(thread_at (step (Thread k) s) j = Unstarted) = (thread_at s j = Unstarted)"
    and "(thread_at (step (Thread k) s) j = Returned) = (thread_at s j = Returned)"
    by blast+
qed

lemma step_Flush_frame:
  shows "main_pc (step Flush s) = main_pc s"
    and "threads (step Flush s) = threads s"
    and "thread_at (step Flush s) j = thread_at s j"
    and "creates (trace (step Flush s)) = creates (trace s)"
    and "joins (trace (step Flush s)) = joins (trace s)"
    and "events_of k (trace (step Flush s)) = events_of k (trace s)"
    and "written (trace (step Flush s)) = written (trace s)"
  by (simp_all add: step.simps creates_append joins_append events_of_def written_append)

subsection \<open>The invariant of \<open>main\<close>\<close>

lemma main_inv_initial: "main_inv [] initial"
  by (simp add: main_inv_def initial_def thread_at_def create_calls_def answer_at_def)

lemma main_inv_Thread:
  assumes "main_inv ans s"
  shows "main_inv ans (step (Thread k) s)"
  using assms unfolding main_inv_def step_Thread_frame .

lemma main_inv_Flush:
  assumes "main_inv ans s"
  shows "main_inv ans (step Flush s)"
  using assms unfolding main_inv_def step_Flush_frame .

lemma create_calls_snoc:
  assumes "c \<le> length ans"
  shows "create_calls (ans @ [r]) c = create_calls ans c"
  using assms by (simp add: create_calls_def nth_append)

lemma create_calls_Suc:
  "create_calls (ans @ [r]) (Suc (length ans)) =
     create_calls ans (length ans) @ [(length ans, Say_hi, r \<noteq> None)]"
  by (simp add: create_calls_def nth_append)

lemma answer_at_snoc:
  "answer_at (ans @ [r]) k =
     (if k = length ans \<and> k < 10 then r else answer_at ans k)"
  by (auto simp: answer_at_def nth_append)

lemma failed_joins_Suc: "failed_joins (Suc j) = failed_joins j @ [(j, False)]"
  by (simp add: failed_joins_def)

lemma main_inv_Main:
  assumes inv: "main_inv ans s"
  shows "main_inv (ans @ [r]) (step (Main r) s)"
proof -
  from inv have len: "length (threads s) = 10"
    and nr: "\<And>k. thread_at s k \<noteq> Returned"
    and ok: "\<And>k. handle_ok (answer_at ans k) (thread_at s k)"
    and cr: "creates (trace s) = create_calls ans (min (length ans) 10)"
    by (simp_all add: main_inv_def)
  show ?thesis
  proof (cases "main_pc s")
    case (Creating j)
    with inv have j: "j = length ans" "j \<le> 10" and jo: "joins (trace s) = []"
      by (simp_all add: main_inv_def)
    show ?thesis
    proof (cases "j < 10")
      case True
      let ?s' = "step (Main r) s"
      have pc: "main_pc ?s' = Creating (Suc j)"
        and tr: "trace ?s' = trace s @ [Create j Say_hi (r \<noteq> None)]"
        and len': "length (threads ?s') = 10"
        using Creating True len by (cases r; simp add: step.simps)+
      have at: "thread_at ?s' k =
          (if k = j \<and> r \<noteq> None then Running (the r) AtThread else thread_at s k)" for k
        using Creating True len by (cases r) (auto simp: step.simps)
      from ok [of j] j have un: "thread_at s j = Unstarted"
        by (simp add: answer_at_def)
      have ok': "handle_ok (answer_at (ans @ [r]) k) (thread_at ?s' k)" for k
        unfolding at answer_at_snoc
        using ok [of k] un j True by (cases r) auto
      have nr': "thread_at ?s' k \<noteq> Returned" for k
        using nr [of k] by (simp add: at)
      have mn: "min (length (ans @ [r])) 10 = Suc j"
        using j True by simp
      have cr': "creates (trace ?s') = create_calls (ans @ [r]) (Suc j)"
        unfolding tr creates_append cr
        using j True by (simp add: create_calls_Suc min_def)
      have jo': "joins (trace ?s') = []"
        by (simp add: tr joins_append jo)
      show ?thesis
        unfolding main_inv_def pc mn
        using len' nr' ok' cr' jo' j True by simp
    next
      case False
      with j have j10: "j = 10" by simp
      with Creating len have st: "step (Main r) s = s\<lparr>main_pc := Joining 0\<rparr>"
        by (simp add: step.simps)
      have "answer_at (ans @ [r]) k = answer_at ans k" for k
        using j j10 by (auto simp: answer_at_snoc)
      moreover have "create_calls (ans @ [r]) 10 = create_calls ans 10"
        using j j10 by (simp add: create_calls_snoc)
      ultimately show ?thesis
        unfolding main_inv_def st
        using j j10 jo len nr ok cr by (simp add: failed_joins_def)
    qed
  next
    case (Joining j)
    with inv have n: "10 < length ans" and j: "j \<le> 10"
      and un: "\<And>k. k < j \<Longrightarrow> thread_at s k = Unstarted"
      and jo: "joins (trace s) = failed_joins j"
      by (simp_all add: main_inv_def)
    have ans: "answer_at (ans @ [r]) k = answer_at ans k" for k
      using n by (auto simp: answer_at_snoc)
    have cc: "create_calls (ans @ [r]) 10 = create_calls ans 10"
      using n by (simp add: create_calls_snoc)
    from n cr cc have cr': "creates (trace s) = create_calls (ans @ [r]) 10"
      by simp
    show ?thesis
    proof (cases "j < 10")
      case True
      with len have at: "thread_at s j = threads s ! j"
        by (simp add: thread_at_def)
      show ?thesis
      proof (cases "threads s ! j")
        case Unstarted
        with Joining True len
        have st: "step (Main r) s = s\<lparr>main_pc := Joining (Suc j), trace := trace s @ [Join j False]\<rparr>"
          by (simp add: step.simps)
        have "thread_at s k = Unstarted" if "k < Suc j" for k
          using that un [of k] at Unstarted by (cases "k = j") simp_all
        then show ?thesis
          unfolding main_inv_def st
          using True n len nr ok cr' jo
          by (simp add: ans creates_append joins_append failed_joins_Suc)
      next
        case (Running tid l)
        with Joining True len have "step (Main r) s = s"
          by (simp add: step.simps)
        then show ?thesis
          unfolding main_inv_def
          using Joining True n j len nr ok cr' jo un by (simp add: ans)
      next
        case Returned
        with nr [of j] at show ?thesis by simp
      qed
    next
      case False
      with j have j10: "j = 10" by simp
      with Joining len
      have st: "step (Main r) s = s\<lparr>main_pc := Exited, trace := trace s @ [Flushed]\<rparr>"
        by (simp add: step.simps)
      have "thread_at s k = Unstarted" for k
      proof (cases "k < 10")
        case True
        with un j10 show ?thesis by simp
      next
        case False
        with len show ?thesis by (simp add: thread_at_def)
      qed
      then show ?thesis
        unfolding main_inv_def st
        using n len nr ok cr' jo j10
        by (simp add: ans creates_append joins_append)
    qed
  next
    case Exited
    then have st: "step (Main r) s = s"
      by (simp add: step.simps)
    from inv Exited have n: "10 < length ans"
      and un: "\<And>k. thread_at s k = Unstarted"
      and jo: "joins (trace s) = failed_joins 10"
      by (simp_all add: main_inv_def)
    have ans: "answer_at (ans @ [r]) k = answer_at ans k" for k
      using n by (auto simp: answer_at_snoc)
    have cc: "create_calls (ans @ [r]) 10 = create_calls ans 10"
      using n by (simp add: create_calls_snoc)
    have mn: "min (length (ans @ [r])) 10 = 10" "min (length ans) 10 = 10"
      using n by simp_all
    show ?thesis
      unfolding main_inv_def st Exited main_pc.case ans cc mn
      using n len nr ok cr [unfolded mn] un jo by (intro conjI allI) simp_all
  qed
qed

lemma main_inv_exec: "main_inv (answers sched) (exec sched)"
proof (induction sched rule: rev_induct)
  case Nil
  show ?case by (simp add: exec_Nil main_inv_initial)
next
  case (snoc c sched)
  then show ?case
    by (cases c)
      (simp_all add: exec_snoc answers_append main_inv_Main main_inv_Thread main_inv_Flush)
qed

lemma length_threads_exec: "length (threads (exec sched)) = 10"
  using main_inv_exec [of sched] by (simp add: main_inv_def)

lemma never_Returned: "thread_at (exec sched) j \<noteq> Returned"
  using main_inv_exec [of sched] by (simp add: main_inv_def)

subsection \<open>The invariant of each thread\<close>

lemma step_Main_events: "events_of k (trace (step (Main r) s)) = events_of k (trace s)"
  by (auto simp: step.simps events_of_def split: main_pc.splits thread.splits)

lemma step_Main_thread_at:
  assumes "main_inv ans s"
  shows "thread_at (step (Main r) s) k =
     (if main_pc s = Creating (length ans) \<and> length ans < 10 \<and> k = length ans \<and> r \<noteq> None
      then Running (the r) AtThread
      else thread_at s k)"
proof (cases "main_pc s")
  case (Creating j)
  with assms have len: "length (threads s) = 10" and j: "j = length ans"
    by (simp_all add: main_inv_def)
  show ?thesis
  proof (cases r)
    case None
    with Creating len j show ?thesis by (simp add: step.simps)
  next
    case (Some tid)
    with Creating len j show ?thesis by (simp add: step.simps)
  qed
next
  case (Joining j)
  then show ?thesis
    by (cases "threads s ! j") (simp_all add: step.simps)
next
  case Exited
  then show ?thesis by (simp add: step.simps)
qed

lemma step_Thread_other:
  assumes "k \<noteq> k'"
  shows "thread_at (step (Thread k') s) k = thread_at s k"
    and "events_of k (trace (step (Thread k') s)) = events_of k (trace s)"
proof -
  have a: "actor (snd (say_hi_step k' tid l)) \<noteq> Some k" for tid l
    using assms by (simp add: actor_say_hi_step)
  show "thread_at (step (Thread k') s) k = thread_at s k"
    using assms by (auto simp: step.simps split: thread.splits prod.splits)
  show "events_of k (trace (step (Thread k') s)) = events_of k (trace s)"
  proof (cases "thread_at s k'")
    case (Running tid l)
    obtain l' e where st: "say_hi_step k' tid l = (l', e)"
      by (cases "say_hi_step k' tid l")
    with a [of tid l] have "actor e \<noteq> Some k" by simp
    with Running st show ?thesis
      by (simp add: step.simps events_of_def)
  qed (simp_all add: step.simps)
qed

lemma step_Thread_self:
  assumes "thread_at s k = Running tid l" and "main_pc s \<noteq> Exited"
    and "say_hi_step k tid l = (l', e)"
  shows "thread_at (step (Thread k) s) k = Running tid l'"
    and "events_of k (trace (step (Thread k) s)) = events_of k (trace s) @ [e]"
proof -
  from assms(1) have k: "k < length (threads s)"
    by (auto simp: thread_at_def split: if_splits)
  from assms(3) have a: "actor e = Some k"
    using actor_say_hi_step [of k tid l] by simp
  show "thread_at (step (Thread k) s) k = Running tid l'"
    using assms k by (simp add: step.simps)
  show "events_of k (trace (step (Thread k) s)) = events_of k (trace s) @ [e]"
    using assms a by (simp add: step.simps events_of_def)
qed

lemma thread_inv_step:
  assumes m: "main_inv ans s" and t: "\<And>j. thread_inv s j"
  shows "thread_inv (step c s) k"
proof (cases c)
  case (Main r)
  show ?thesis
  proof (cases "main_pc s = Creating (length ans) \<and> length ans < 10 \<and> k = length ans \<and> r \<noteq> None")
    case True
    from m have "handle_ok (answer_at ans k) (thread_at s k)"
      by (simp add: main_inv_def)
    with True have "thread_at s k = Unstarted"
      by (simp add: answer_at_def)
    with t [of k] have ev: "events_of k (trace s) = []"
      by (simp add: thread_inv_def)
    from True have at: "thread_at (step (Main r) s) k = Running (the r) AtThread"
      by (simp add: step_Main_thread_at [OF m])
    show ?thesis
      unfolding Main thread_inv_def at step_Main_events ev by simp
  next
    case False
    then have at: "thread_at (step (Main r) s) k = thread_at s k"
      by (simp only: step_Main_thread_at [OF m] if_False)
    show ?thesis
      using t [of k] unfolding Main thread_inv_def at step_Main_events .
  qed
next
  case Flush
  show ?thesis
    using t [of k] unfolding Flush thread_inv_def step_Flush_frame .
next
  case (Thread k')
  show ?thesis
  proof (cases "k = k'")
    case False
    show ?thesis
      using t [of k] unfolding Thread thread_inv_def step_Thread_other [OF False] .
  next
    case True
    show ?thesis
    proof (cases "main_pc s = Exited \<or> thread_at s k = Unstarted \<or> thread_at s k = Returned")
      case idle: True
      then have "step (Thread k) s = s" by (rule step_Thread_idle)
      with t [of k] show ?thesis by (simp add: Thread True [symmetric])
    next
      case False
      then obtain tid l where Running: "thread_at s k = Running tid l"
        and ne: "main_pc s \<noteq> Exited"
        by (cases "thread_at s k") auto
      obtain l' e where st: "say_hi_step k tid l = (l', e)"
        by (cases "say_hi_step k tid l")
      from t [of k] Running
      have run: "say_hi_run k tid (length (events_of k (trace s))) = (l, events_of k (trace s))"
        by (simp add: thread_inv_def)
      show ?thesis
        unfolding Thread True [symmetric] thread_inv_def
        by (simp add: step_Thread_self [OF Running ne st] run st)
    qed
  qed
qed

lemma thread_inv_exec: "thread_inv (exec sched) k"
proof (induction sched arbitrary: k rule: rev_induct)
  case Nil
  show ?case by (simp add: exec_Nil thread_inv_def initial_def thread_at_def events_of_def)
next
  case (snoc c sched)
  show ?case
    unfolding exec_snoc by (rule thread_inv_step [OF main_inv_exec snoc])
qed

subsection \<open>Decimal thread ids and report lines\<close>

lemma digit_in: "digit d \<in> set ''0123456789''"
  unfolding digit_def by (rule nth_mem) simp

lemma dec_chars: "set (dec n) \<subseteq> set ''0123456789''"
proof (induction n rule: dec.induct)
  case (1 n)
  show ?case
  proof (cases "n < 10")
    case True
    then show ?thesis using digit_in [of n] by (subst dec.simps) simp
  next
    case False
    then show ?thesis using 1 digit_in [of "n mod 10"] by (subst dec.simps) simp
  qed
qed

lemma dec_nonempty: "dec n \<noteq> []"
  by (subst dec.simps) simp

lemma dec_no_space: "space \<notin> set (dec n)"
proof
  assume "space \<in> set (dec n)"
  then have "space \<in> set ''0123456789''"
    using dec_chars by (rule rev_subsetD)
  then show False by simp
qed

lemma dec_no_newline: "newline \<notin> set (dec n)"
proof
  assume "newline \<in> set (dec n)"
  then have "newline \<in> set ''0123456789''"
    using dec_chars by (rule rev_subsetD)
  then show False by simp
qed

lemma dec_digits: "list_all is_digit (dec n)"
  using dec_chars [of n] unfolding list_all_iff is_digit_def by blast

lemma report_line_no_newline: "newline \<notin> set (report_line tid)"
  by (simp add: report_line_def dec_no_newline)

lemma tokens_report_line:
  "tokens (report_line tid) = [''Thread'', dec tid, ''reporting'', ''in'']"
proof -
  have "report_line tid = ''Thread'' @ space # dec tid @ space # ''reporting'' @ space # ''in''"
    by (simp add: report_line_def)
  moreover have "split_on space (''Thread'' @ space # dec tid @ space # ''reporting'' @ space # ''in'') =
      [''Thread'', dec tid, ''reporting'', ''in'']"
    by (simp add: split_on_sep split_on_notin dec_no_space)
  ultimately show ?thesis
    by (simp add: tokens_def dec_nonempty)
qed

lemma is_report_line_report_line: "is_report_line (report_line tid)"
  using dec_nonempty [of tid]
  by (simp add: is_report_line_def report_line_def dec_digits)


subsection \<open>What one thread writes\<close>

lemma concat_replicate_snoc: "concat (replicate q x) @ x = concat (replicate (Suc q) x)"
  by (induction q) simp_all

lemma lines_of_rounds:
  assumes "newline \<notin> set x" and "newline \<notin> set p"
  shows "split_on newline (concat (replicate q (x @ [newline])) @ p) = replicate q x @ [p]"
proof -
  have "split_on newline (concat (map (\<lambda>t. t @ [newline]) (replicate q x)) @ p) =
      replicate q x @ [p]"
    using assms by (intro split_on_rest) auto
  then show ?thesis by (simp add: map_replicate)
qed

text \<open>
  After \<open>n\<close> steps a thread has completed \<open>q\<close> rounds of the loop and stands at the
  location that \<open>n mod 4\<close> gives; a line is complete with the third step of a round.
\<close>

lemma say_hi_run_text:
  "\<exists>q. (case fst (say_hi_run k tid n) of
          AtThread \<Rightarrow> n = 4 * q \<and>
            written (snd (say_hi_run k tid n)) = concat (replicate q (report_line tid @ [newline]))
        | AtTid \<Rightarrow> n = 4 * q + 1 \<and>
            written (snd (say_hi_run k tid n)) =
              concat (replicate q (report_line tid @ [newline])) @ ''Thread ''
        | AtReporting \<Rightarrow> n = 4 * q + 2 \<and>
            written (snd (say_hi_run k tid n)) =
              concat (replicate q (report_line tid @ [newline])) @ ''Thread '' @ dec tid
        | AtSleep \<Rightarrow> n = 4 * q + 3 \<and>
            written (snd (say_hi_run k tid n)) =
              concat (replicate (Suc q) (report_line tid @ [newline])))"
proof (induction n)
  case 0
  show ?case by (rule exI [of _ 0]) simp
next
  case (Suc n)
  then obtain q where q: "case fst (say_hi_run k tid n) of
          AtThread \<Rightarrow> n = 4 * q \<and>
            written (snd (say_hi_run k tid n)) = concat (replicate q (report_line tid @ [newline]))
        | AtTid \<Rightarrow> n = 4 * q + 1 \<and>
            written (snd (say_hi_run k tid n)) =
              concat (replicate q (report_line tid @ [newline])) @ ''Thread ''
        | AtReporting \<Rightarrow> n = 4 * q + 2 \<and>
            written (snd (say_hi_run k tid n)) =
              concat (replicate q (report_line tid @ [newline])) @ ''Thread '' @ dec tid
        | AtSleep \<Rightarrow> n = 4 * q + 3 \<and>
            written (snd (say_hi_run k tid n)) =
              concat (replicate (Suc q) (report_line tid @ [newline]))"
    by blast
  obtain l es where run: "say_hi_run k tid n = (l, es)"
    by (cases "say_hi_run k tid n")
  have suc: "say_hi_run k tid (Suc n) =
      (fst (say_hi_step k tid l), es @ [snd (say_hi_step k tid l)])"
    using run by (simp split: prod.splits)
  show ?case
  proof (cases l)
    case AtThread
    with q run have "n = 4 * q"
      and "written es = concat (replicate q (report_line tid @ [newline]))"
      by simp_all
    then show ?thesis
      unfolding suc AtThread by (intro exI [of _ q]) (simp add: written_append)
  next
    case AtTid
    with q run have "n = 4 * q + 1"
      and "written es = concat (replicate q (report_line tid @ [newline])) @ ''Thread ''"
      by simp_all
    then show ?thesis
      unfolding suc AtTid by (intro exI [of _ q]) (simp add: written_append)
  next
    case AtReporting
    with q run have n: "n = 4 * q + 2"
      and "written es = concat (replicate q (report_line tid @ [newline])) @ ''Thread '' @ dec tid"
      by simp_all
    then have "written es @ '' reporting in'' @ [newline] =
        concat (replicate q (report_line tid @ [newline])) @ (report_line tid @ [newline])"
      by (simp add: report_line_def)
    then have "written es @ '' reporting in'' @ [newline] =
        concat (replicate (Suc q) (report_line tid @ [newline]))"
      by (simp only: concat_replicate_snoc)
    with n show ?thesis
      unfolding suc AtReporting
      by (intro exI [of _ q]) (simp add: written_append del: replicate_Suc)
  next
    case AtSleep
    with q run have "n = 4 * q + 3"
      and "written es = concat (replicate (Suc q) (report_line tid @ [newline]))"
      by simp_all
    then show ?thesis
      unfolding suc AtSleep by (intro exI [of _ "Suc q"]) (simp add: written_append)
  qed
qed


lemma thread_lines:
  assumes "thread_at (exec sched) k = Running tid l"
  shows "\<exists>q. lines_of (written_by k (trace (exec sched))) = replicate q (report_line tid) \<and>
    q = (length (events_of k (trace (exec sched))) + 1) div 4 \<and>
    pending_line (written_by k (trace (exec sched))) \<in> {[], ''Thread '', ''Thread '' @ dec tid}"
proof -
  let ?es = "events_of k (trace (exec sched))"
  let ?L = "report_line tid @ [newline]"
  from thread_inv_exec [of sched k] assms
  have run: "say_hi_run k tid (length ?es) = (l, ?es)"
    by (simp add: thread_inv_def)
  from say_hi_run_text [where k = k and tid = tid and n = "length ?es"]
  obtain q where q: "case l of
          AtThread \<Rightarrow> length ?es = 4 * q \<and> written ?es = concat (replicate q ?L)
        | AtTid \<Rightarrow> length ?es = 4 * q + 1 \<and> written ?es = concat (replicate q ?L) @ ''Thread ''
        | AtReporting \<Rightarrow> length ?es = 4 * q + 2 \<and>
            written ?es = concat (replicate q ?L) @ ''Thread '' @ dec tid
        | AtSleep \<Rightarrow> length ?es = 4 * q + 3 \<and> written ?es = concat (replicate (Suc q) ?L)"
    unfolding run fst_conv snd_conv by blast
  have split: "newline \<notin> set p \<Longrightarrow>
      split_on newline (concat (replicate m ?L) @ p) = replicate m (report_line tid) @ [p]" for m p
    by (rule lines_of_rounds [OF report_line_no_newline])
  have nl: "newline \<notin> set ([] :: string)" "newline \<notin> set ''Thread ''"
    "newline \<notin> set (''Thread '' @ dec tid)"
    by (simp_all add: dec_no_newline)
  show ?thesis
  proof (cases l)
    case AtThread
    with q have n: "length ?es = 4 * q" and w: "written ?es = concat (replicate q ?L) @ []"
      by simp_all
    show ?thesis
      unfolding written_by_def lines_of_def pending_line_def w split [OF nl(1)]
      using n by (intro exI [of _ q]) simp
  next
    case AtTid
    with q have n: "length ?es = 4 * q + 1"
      and w: "written ?es = concat (replicate q ?L) @ ''Thread ''"
      by simp_all
    show ?thesis
      unfolding written_by_def lines_of_def pending_line_def w split [OF nl(2)]
      using n by (intro exI [of _ q]) simp
  next
    case AtReporting
    with q have n: "length ?es = 4 * q + 2"
      and w: "written ?es = concat (replicate q ?L) @ (''Thread '' @ dec tid)"
      by simp_all
    show ?thesis
      unfolding written_by_def lines_of_def pending_line_def w split [OF nl(3)]
      using n by (intro exI [of _ q]) simp
  next
    case AtSleep
    with q have n: "length ?es = 4 * q + 3"
      and w: "written ?es = concat (replicate (Suc q) ?L) @ []"
      by simp_all
    show ?thesis
      unfolding written_by_def lines_of_def pending_line_def w split [OF nl(1)]
      using n by (intro exI [of _ "Suc q"]) simp
  qed
qed

lemma thread_silent:
  assumes "thread_at (exec sched) k = Unstarted"
  shows "events_of k (trace (exec sched)) = []"
  using thread_inv_exec [of sched k] assms by (simp add: thread_inv_def)

lemma say_hi_run_rounds:
  "say_hi_run k tid (4 * n) = (AtThread, concat (replicate n (round_events k tid)))"
proof (induction n)
  case 0
  show ?case by simp
next
  case (Suc n)
  have "4 * Suc n = Suc (Suc (Suc (Suc (4 * n))))" by simp
  then show ?case
    by (simp only: say_hi_run.simps Suc)
      (simp add: round_events_def concat_replicate_snoc [symmetric] del: replicate_Suc)
qed

lemma say_hi_never_Some: "say_hi k tid tr \<noteq> Some y"
proof
  assume returns: "say_hi k tid tr = Some y"
  show False
    by (rule say_hi.raw_induct [where P = "\<lambda>k tid tr y. False", OF _ returns]) blast
qed


subsection \<open>What has reached standard output\<close>





subsection \<open>Handles, answers and threads\<close>


lemma thread_of_answer:
  "handle_ok (answer_at (answers sched) k) (thread_at (exec sched) k)"
  using main_inv_exec [of sched] by (simp add: main_inv_def)

lemma started_iff_answer:
  "thread_at (exec sched) k \<noteq> Unstarted \<longleftrightarrow> answer_at (answers sched) k \<noteq> None"
  using thread_of_answer [of sched k]
  by (cases "answer_at (answers sched) k") auto

lemma threads_as_map: "threads (exec sched) = map (thread_at (exec sched)) [0..<10]"
  by (rule nth_equalityI) (simp_all add: length_threads_exec thread_at_def)

lemma take_answers:
  assumes "c = min (length ans) 10"
  shows "take c ans = map (answer_at ans) [0..<c]"
  using assms by (intro nth_equalityI) (simp_all add: answer_at_def)

lemma count_threads:
  "length (filter (\<lambda>t. t \<noteq> Unstarted) (threads (exec sched))) =
   length (filter (\<lambda>r. r \<noteq> None) (take (min (length (answers sched)) 10) (answers sched)))"
proof -
  let ?ans = "answers sched" and ?c = "min (length (answers sched)) 10"
  have split: "[0..<10] = [0..<?c] @ [?c..<10]"
    using upt_add_eq_append [of 0 ?c "10 - ?c"] by simp
  have none: "filter (\<lambda>k. answer_at ?ans k \<noteq> None) [?c..<10] = []"
    by (auto simp: filter_empty_conv answer_at_def)
  have "length (filter (\<lambda>t. t \<noteq> Unstarted) (threads (exec sched))) =
      length (filter (\<lambda>k. answer_at ?ans k \<noteq> None) [0..<10])"
    by (subst threads_as_map) (simp add: filter_map o_def started_iff_answer)
  also have "\<dots> = length (filter (\<lambda>k. answer_at ?ans k \<noteq> None) [0..<?c])"
    by (subst split) (simp only: filter_append none append_Nil2)
  also have "\<dots> = length (filter (\<lambda>r. r \<noteq> None) (take ?c ?ans))"
    by (simp add: take_answers [OF refl] filter_map o_def)
  finally show ?thesis .
qed


subsection \<open>The claims about \<open>multi_threaded2.cpp\<close>\<close>

text \<open>
  Claim C2 says that the program spawns exactly ten threads. \<open>main\<close> ignores what
  \<open>pthread_create\<close> returns: when the first of its ten calls fails and the other nine
  succeed, \<open>main\<close> has made its ten calls and left the loop, and nine threads exist.
\<close>

theorem ten_threads_counterexample:
  "(let s = exec [Main None, Main (Some 101), Main (Some 102), Main (Some 103),
                  Main (Some 104), Main (Some 105), Main (Some 106), Main (Some 107),
                  Main (Some 108), Main (Some 109), Main None]
    in main_pc s = Joining 0 \<and> length (creates (trace s)) = 10 \<and>
       length (filter (\<lambda>t. t \<noteq> Unstarted) (threads s)) = 9)"
  by code_simp

text \<open>
  Claim C2, amended. The vector always has ten handles. \<open>main\<close> calls
  \<open>pthread_create\<close> once for each handle, in order and with \<open>say_hi\<close> as the start
  routine: after \<open>n \<le> 10\<close> steps it is at the head of its first loop with index \<open>n\<close>,
  after more than ten it has left the loop with ten calls made. A call that the
  environment answers with a thread id spawns a thread with that id on its handle,
  whose events are the steps of \<open>say_hi\<close> it has taken (it prints that id in a loop);
  a call that fails leaves the handle without a thread. The number of threads is the
  number of calls that succeeded: ten exactly when none of the ten fails.
\<close>

theorem pthread_create_once_per_handle:
  "(let s = exec sched; ans = answers sched; c = min (length ans) 10
    in length (threads s) = 10 \<and>
       creates (trace s) = map (\<lambda>k. (k, Say_hi, ans ! k \<noteq> None)) [0..<c] \<and>
       (if length ans \<le> 10 then main_pc s = Creating (length ans)
        else main_pc s \<in> insert Exited (Joining ` {..10})) \<and>
       list_all
         (\<lambda>k. case ans ! k of
                Some tid \<Rightarrow>
                  (\<exists>l. thread_at s k = Running tid l \<and>
                       say_hi_run k tid (length (events_of k (trace s))) =
                         (l, events_of k (trace s)))
              | None \<Rightarrow> thread_at s k = Unstarted \<and> events_of k (trace s) = [])
         [0..<c] \<and>
       length (filter (\<lambda>t. t \<noteq> Unstarted) (threads s)) =
         length (filter (\<lambda>r. r \<noteq> None) (take c ans)))"
proof -
  let ?s = "exec sched" and ?ans = "answers sched"
  let ?c = "min (length ?ans) 10"
  have inv: "main_inv ?ans ?s" by (rule main_inv_exec)
  then have calls: "creates (trace ?s) = map (\<lambda>k. (k, Say_hi, ?ans ! k \<noteq> None)) [0..<?c]"
    by (simp add: main_inv_def create_calls_def)
  have pc: "if length ?ans \<le> 10 then main_pc ?s = Creating (length ?ans)
      else main_pc ?s \<in> insert Exited (Joining ` {..10})"
    using inv by (cases "main_pc ?s") (auto simp: main_inv_def)
  have handle: "case ?ans ! k of
        Some tid \<Rightarrow>
          (\<exists>l. thread_at ?s k = Running tid l \<and>
               say_hi_run k tid (length (events_of k (trace ?s))) = (l, events_of k (trace ?s)))
      | None \<Rightarrow> thread_at ?s k = Unstarted \<and> events_of k (trace ?s) = []"
    if "k < ?c" for k
  proof -
    from that have a: "answer_at ?ans k = ?ans ! k"
      by (simp add: answer_at_def)
    show ?thesis
    proof (cases "?ans ! k")
      case None
      with thread_of_answer [of sched k] a have "thread_at ?s k = Unstarted"
        by simp
      with None show ?thesis by (simp add: thread_silent)
    next
      case (Some tid)
      with thread_of_answer [of sched k] a obtain l
        where run: "thread_at ?s k = Running tid l"
        by auto
      with thread_inv_exec [of sched k]
      have "say_hi_run k tid (length (events_of k (trace ?s))) = (l, events_of k (trace ?s))"
        by (simp add: thread_inv_def)
      with Some run show ?thesis by simp
    qed
  qed
  then have handles: "list_all
         (\<lambda>k. case ?ans ! k of
                Some tid \<Rightarrow>
                  (\<exists>l. thread_at ?s k = Running tid l \<and>
                       say_hi_run k tid (length (events_of k (trace ?s))) =
                         (l, events_of k (trace ?s)))
              | None \<Rightarrow> thread_at ?s k = Unstarted \<and> events_of k (trace ?s) = [])
         [0..<?c]"
    unfolding list_all_iff by simp
  from length_threads_exec [of sched] calls pc handles count_threads [of sched]
  show ?thesis
    unfolding Let_def by blast
qed

text \<open>
  Claim C3. \<open>say_hi\<close> does not return; from its entry it completes \<open>n\<close> rounds of
  printing and sleeping in \<open>4 * n\<close> steps and stands at the head of the loop again, for
  every \<open>n\<close>; and in no execution of the program has a thread returned.
\<close>

theorem say_hi_never_returns:
  "say_hi k tid tr = None \<and>
   say_hi_run k tid (4 * n) = (AtThread, concat (replicate n (round_events k tid))) \<and>
   thread_at (exec sched) j \<noteq> Returned"
proof -
  have "say_hi k tid tr = None"
  proof (cases "say_hi k tid tr")
    case (Some y)
    with say_hi_never_Some [of k tid tr y] show ?thesis by blast
  qed
  then show ?thesis
    by (simp add: say_hi_run_rounds never_Returned)
qed




text \<open>
  Claim C5 says that every line on standard output has the form
  \<open>Thread <id> reporting in\<close>. The three insertions of one thread are separate calls, so
  those of another may come between them: when thread 1 writes \<open>Thread \<close> between the
  first and the second insertion of thread 0, the first line is
  \<open>Thread Thread 101 reporting in\<close>.
\<close>

theorem interleaved_line_counterexample:
  "\<not> list_all is_report_line
       (lines_of (written (trace (exec
          [Main (Some 101), Main (Some 102), Thread 0, Thread 1, Thread 0, Thread 0]))))"
  by code_simp

text \<open>
  Claim C5, amended. What a single thread writes is a sequence of complete lines
  \<open>Thread <id> reporting in\<close> with its own thread id, followed by nothing, by \<open>Thread \<close>
  or by \<open>Thread <id>\<close>; a handle without a thread writes nothing.
\<close>

theorem each_thread_writes_report_lines:
  "(case thread_at (exec sched) k of
      Running tid l \<Rightarrow>
        list_all (\<lambda>x. x = report_line tid) (lines_of (written_by k (trace (exec sched)))) \<and>
        is_report_line (report_line tid) \<and>
        pending_line (written_by k (trace (exec sched))) \<in> {[], ''Thread '', ''Thread '' @ dec tid}
    | _ \<Rightarrow> written_by k (trace (exec sched)) = [])"
proof (cases "thread_at (exec sched) k")
  case Unstarted
  then show ?thesis by (simp add: written_by_def thread_silent)
next
  case (Running tid l)
  from thread_lines [OF Running] obtain q
    where "lines_of (written_by k (trace (exec sched))) = replicate q (report_line tid)"
      and "pending_line (written_by k (trace (exec sched))) \<in>
        {[], ''Thread '', ''Thread '' @ dec tid}"
    by blast
  with Running show ?thesis
    by (simp add: list_all_iff is_report_line_report_line)
next
  case Returned
  with never_Returned [of sched k] show ?thesis by simp
qed

text \<open>
  Claim C7 says that any two runs have the same number of tokens in each line. Two
  runs of the first program that both end after one complete line: one line has four
  tokens, the other five.
\<close>

theorem output_shape_counterexample:
  "length (lines_of (written (trace (exec
      [Main (Some 101), Main (Some 102), Thread 0, Thread 0, Thread 0])))) =
   length (lines_of (written (trace (exec
      [Main (Some 101), Main (Some 102), Thread 0, Thread 1, Thread 0, Thread 0])))) \<and>
   shape (written (trace (exec
      [Main (Some 101), Main (Some 102), Thread 0, Thread 0, Thread 0]))) \<noteq>
   shape (written (trace (exec
      [Main (Some 101), Main (Some 102), Thread 0, Thread 1, Thread 0, Thread 0])))"
  by code_simp

text \<open>
  Claim C7, amended. Every run of the second program writes two lines of sixteen
  tokens; in every run of the first program every complete line that a single thread
  writes has four tokens.
\<close>

theorem output_shape_per_program_and_thread:
  "shape (stdout (main repr i_addr m0)) = [16, 16] \<and>
   list_all (\<lambda>n. n = 4) (shape (written_by k (trace (exec sched))))"
proof -
  have "shape (stdout (main repr i_addr m0)) = [16, 16]"
    by (simp add: shape_def lines_of_def main_lines tokens_render length_ld_object)
  moreover have "list_all (\<lambda>n. n = 4) (shape (written_by k (trace (exec sched))))"
  proof (cases "thread_at (exec sched) k")
    case Unstarted
    then show ?thesis
      by (simp add: written_by_def thread_silent shape_def lines_of_def)
  next
    case (Running tid l)
    from thread_lines [OF Running] obtain q
      where "lines_of (written_by k (trace (exec sched))) = replicate q (report_line tid)"
      by blast
    then show ?thesis
      by (simp add: shape_def list_all_iff tokens_report_line)
  next
    case Returned
    with never_Returned [of sched k] show ?thesis by simp
  qed
  ultimately show ?thesis ..
qed




end
